theory Spec2Isabelle
  imports Complex_Main
begin

section \<open>Greedy duplicate resolution of the semantic deduplication tutorial\<close>

text \<open>
  The notebook \<^verbatim>\<open>tutorials/semantic_deduplication.ipynb\<close> defines two functions with
  algorithmic content, \<^verbatim>\<open>deduplicate\<close> and \<^verbatim>\<open>deduplicate_across_datasets\<close>. Both call
  the external library method \<^verbatim>\<open>reach.nearest_neighbor_threshold\<close> and then run a
  loop over what it delivers. The library is not part of the repository, so the
  search is a parameter of the embedding: a function from the indexed vectors, the
  query vectors, the threshold and the batch size to one list of items per query
  vector. Every theorem below holds for every such function.

  Data, as the code has it:
  \<^item> an index is a Python \<^verbatim>\<open>int\<close>: HOL's \<open>int\<close>. The search hands indices back as
    the strings \<^verbatim>\<open>str(i)\<close> and the loops read them with \<^verbatim>\<open>int(item[0])\<close>; the
    embedding holds the integer that \<^verbatim>\<open>int\<close> returns;
  \<^item> a score is the number that an \<^verbatim>\<open>np.float32\<close> holds (the search computes the
    scores in single precision from the float32 matrices of \<^verbatim>\<open>model.encode\<close>), and
    the threshold is the number that a Python \<^verbatim>\<open>float\<close> holds: both are \<open>real\<close>. The
    code computes with neither; it compares them once, in \<^verbatim>\<open>item[1] >= threshold\<close> of
    \<^verbatim>\<open>deduplicate_across_datasets\<close>, and NumPy (from version 2 on) makes that
    comparison in single precision: it rounds the threshold to float32 first;
  \<^item> an item is the tuple \<^verbatim>\<open>(index, score)\<close>;
  \<^item> an embedding matrix is the list of its rows; the loops use its length only;
  \<^item> \<^verbatim>\<open>deduplicated_indices\<close> is a Python set: an \<open>int set\<close>;
    \<^verbatim>\<open>duplicate_to_original_mapping\<close> is a dict: a map \<open>int \<rightharpoonup> int\<close>;
    \<^verbatim>\<open>duplicate_indices_in_test\<close> is a list.

  The loops have no \<^verbatim>\<open>raise\<close>, and their two operations that could raise by
  themselves stand behind the guard that excludes it: \<^verbatim>\<open>set.remove\<close> behind
  \<^verbatim>\<open>if sim_idx in deduplicated_indices\<close>, and \<^verbatim>\<open>similar_indices[0]\<close> behind
  \<^verbatim>\<open>if similar_indices\<close>. The embedding keeps both guards. What the search itself
  raises (on a batch size of 0, for instance) is outside the embedding, which starts
  from the lists that the search has delivered.
\<close>

type_synonym item = "int \<times> real"

type_synonym 'v search = "'v list \<Rightarrow> 'v list \<Rightarrow> real \<Rightarrow> nat \<Rightarrow> item list list"

subsection \<open>\<^verbatim>\<open>deduplicate\<close>\<close>

text \<open>The loop state: \<^verbatim>\<open>(deduplicated_indices, duplicate_to_original_mapping)\<close>.\<close>

type_synonym dedup_state = "int set \<times> (int \<rightharpoonup> int)"

text \<open>
  \<^verbatim>\<open>similar_indices = [int(item[0]) for item in similar_items if int(item[0]) != i]\<close>
\<close>

definition similar_indices :: "int \<Rightarrow> item list \<Rightarrow> int list" where
  "similar_indices i similar_items =
     map fst (filter (\<lambda>item. fst item \<noteq> i) similar_items)"

text \<open>
  The body of the inner loop:
  \<^verbatim>\<open>
  if sim_idx in deduplicated_indices:
      deduplicated_indices.remove(sim_idx)
      duplicate_to_original_mapping[sim_idx] = i
  \<close>
\<close>

fun mark_duplicate :: "int \<Rightarrow> int \<Rightarrow> dedup_state \<Rightarrow> dedup_state" where
  "mark_duplicate i sim_idx (deduplicated_indices, duplicate_to_original_mapping) =
     (if sim_idx \<in> deduplicated_indices
      then (deduplicated_indices - {sim_idx}, duplicate_to_original_mapping(sim_idx \<mapsto> i))
      else (deduplicated_indices, duplicate_to_original_mapping))"

text \<open>The inner loop, \<^verbatim>\<open>for sim_idx in similar_indices\<close>.\<close>

fun mark_duplicates :: "int \<Rightarrow> int list \<Rightarrow> dedup_state \<Rightarrow> dedup_state" where
  "mark_duplicates i [] st = st"
| "mark_duplicates i (sim_idx # rest) st = mark_duplicates i rest (mark_duplicate i sim_idx st)"

text \<open>
  The body of the outer loop: an index that is no longer in \<^verbatim>\<open>deduplicated_indices\<close>
  is skipped (\<^verbatim>\<open>continue\<close>); otherwise its similar indices are marked.
\<close>

definition process_item :: "int \<Rightarrow> item list \<Rightarrow> dedup_state \<Rightarrow> dedup_state" where
  "process_item i similar_items st =
     (if i \<notin> fst st then st
      else mark_duplicates i (similar_indices i similar_items) st)"

text \<open>
  The outer loop, \<^verbatim>\<open>for i, similar_items in enumerate(results)\<close>, from the counter
  \<open>i\<close> on.
\<close>

fun process_duplicates :: "int \<Rightarrow> item list list \<Rightarrow> dedup_state \<Rightarrow> dedup_state" where
  "process_duplicates i [] st = st"
| "process_duplicates i (similar_items # rest) st =
     process_duplicates (i + 1) rest (process_item i similar_items st)"

text \<open>
  The function: the index is built over \<^verbatim>\<open>embedding_matrix\<close> and queried with the
  same matrix; the set starts as \<^verbatim>\<open>set(range(len(embedding_matrix)))\<close> and the dict
  empty. The returned array lists the set in no particular order, so the result holds
  the set.
\<close>

definition deduplicate ::
  "'v search \<Rightarrow> 'v list \<Rightarrow> real \<Rightarrow> nat \<Rightarrow> int set \<times> (int \<rightharpoonup> int)" where
  "deduplicate nearest_neighbor_threshold embedding_matrix threshold batch_size =
     (let deduplicated_indices = {0 ..< int (length embedding_matrix)};
          duplicate_to_original_mapping = Map.empty;
          results = nearest_neighbor_threshold embedding_matrix embedding_matrix
                      threshold batch_size
      in process_duplicates 0 results (deduplicated_indices, duplicate_to_original_mapping))"

subsection \<open>The comparison in single precision\<close>

text \<open>
  Rounding to an integer, ties to the even one.
\<close>

definition round_half_even :: "real \<Rightarrow> int" where
  "round_half_even q =
     (let f = \<lfloor>q\<rfloor>; r = q - of_int f
      in if r < 1/2 then f else if 1/2 < r then f + 1 else if even f then f else f + 1)"

text \<open>
  The float32 nearest to \<open>x\<close>, ties to the even significand, as the conversion of a
  Python \<^verbatim>\<open>float\<close> to \<^verbatim>\<open>np.float32\<close> rounds. The binade of \<open>x\<close> has the exponent
  \<open>e\<close>, not below that of the smallest normal number, and its float32 values are the
  multiples of \<open>2 powi (e - 23)\<close>. Beyond the largest float32 the conversion gives an
  infinity; the formula gives a number of magnitude \<open>2 powi 128\<close> or more there, which
  compares with every float32 score as the infinity does.
\<close>

definition float32 :: "real \<Rightarrow> real" where
  "float32 x =
     (let e = max \<lfloor>log 2 \<bar>x\<bar>\<rfloor> (- 126); ulp = 2 powi (e - 23)
      in of_int (round_half_even (x / ulp)) * ulp)"

subsection \<open>\<^verbatim>\<open>deduplicate_across_datasets\<close>\<close>

text \<open>The loop state: \<^verbatim>\<open>(duplicate_indices_in_test, duplicate_to_original_mapping)\<close>.\<close>

type_synonym overlap_state = "int list \<times> (int \<rightharpoonup> int)"

text \<open>
  The body of the loop:
  \<^verbatim>\<open>
  similar_indices = [int(item[0]) for item in similar_items if item[1] >= threshold]
  if similar_indices:
      duplicate_indices_in_test.append(i)
      duplicate_to_original_mapping[i] = similar_indices[0]
  \<close>
  with \<^verbatim>\<open>item[1] >= threshold\<close> evaluated as NumPy evaluates it for an \<^verbatim>\<open>np.float32\<close>
  and a Python \<^verbatim>\<open>float\<close>: the score against the threshold rounded to float32.
\<close>

fun mark_overlap :: "real \<Rightarrow> int \<Rightarrow> item list \<Rightarrow> overlap_state \<Rightarrow> overlap_state" where
  "mark_overlap threshold i similar_items
       (duplicate_indices_in_test, duplicate_to_original_mapping) =
     (case map fst (filter (\<lambda>item. snd item \<ge> float32 threshold) similar_items) of
        [] \<Rightarrow> (duplicate_indices_in_test, duplicate_to_original_mapping)
      | first_idx # _ \<Rightarrow>
          (duplicate_indices_in_test @ [i], duplicate_to_original_mapping(i \<mapsto> first_idx)))"

text \<open>The loop, \<^verbatim>\<open>for i, similar_items in enumerate(results)\<close>, from the counter \<open>i\<close> on.\<close>

fun process_overlaps ::
  "real \<Rightarrow> int \<Rightarrow> item list list \<Rightarrow> overlap_state \<Rightarrow> overlap_state" where
  "process_overlaps threshold i [] st = st"
| "process_overlaps threshold i (similar_items # rest) st =
     process_overlaps threshold (i + 1) rest (mark_overlap threshold i similar_items st)"

text \<open>
  The function: the index is built over \<^verbatim>\<open>embedding_matrix_1\<close> and queried with
  \<^verbatim>\<open>embedding_matrix_2\<close>.
\<close>

definition deduplicate_across_datasets ::
  "'v search \<Rightarrow> 'v list \<Rightarrow> 'v list \<Rightarrow> real \<Rightarrow> nat \<Rightarrow> int list \<times> (int \<rightharpoonup> int)" where
  "deduplicate_across_datasets nearest_neighbor_threshold embedding_matrix_1 embedding_matrix_2
       threshold batch_size =
     (let duplicate_indices_in_test = [];
          duplicate_to_original_mapping = Map.empty;
          results = nearest_neighbor_threshold embedding_matrix_1 embedding_matrix_2
                      threshold batch_size
      in process_overlaps threshold 0 results
           (duplicate_indices_in_test, duplicate_to_original_mapping))"

subsection \<open>Predicates of the statements\<close>

text \<open>
  The neighbour lists are symmetric: whenever the list delivered for \<open>a\<close> names \<open>b\<close>,
  the list delivered for \<open>b\<close> names \<open>a\<close>.
\<close>

definition symmetric_neighbors :: "item list list \<Rightarrow> bool" where
  "symmetric_neighbors results =
     (\<forall>a \<in> {0 ..< length results}. \<forall>b \<in> {0 ..< length results}.
        int b \<in> fst ` set (results ! a) \<longrightarrow> int a \<in> fst ` set (results ! b))"

text \<open>
  The invariant of the outer loop under symmetry: every value of the mapping is an index
  already visited and still kept, and none of its neighbours is kept.
\<close>

definition sources_kept :: "item list list \<Rightarrow> dedup_state \<Rightarrow> bool" where
  "sources_kept xs st =
     (\<forall>j i. snd st j = Some i \<longrightarrow>
        0 \<le> i \<and> nat i < length xs \<and> i \<in> fst st \<and>
        (\<forall>b \<in> fst ` set (xs ! nat i). b \<noteq> i \<longrightarrow> b \<notin> fst st))"

section \<open>The same-dataset loops in closed form\<close>

lemma set_similar_indices: "set (similar_indices i similar_items) = fst ` set similar_items - {i}"
  by (auto simp: similar_indices_def)

lemma mark_duplicates_closed:
  "mark_duplicates i sims (K, M) =
     (K - set sims, \<lambda>j. if j \<in> set sims \<and> j \<in> K then Some i else M j)"
proof (induction sims arbitrary: K M)
  case Nil
  show ?case by simp
next
  case (Cons s sims)
  show ?case
  proof (cases "s \<in> K")
    case True
    then show ?thesis by (auto simp: Cons.IH fun_eq_iff)
  next
    case False
    then show ?thesis by (auto simp: Cons.IH fun_eq_iff)
  qed
qed

lemma process_item_closed:
  "process_item i items (K, M) =
     (if i \<in> K
      then (K - (fst ` set items - {i}),
            \<lambda>j. if j \<in> fst ` set items \<and> j \<noteq> i \<and> j \<in> K then Some i else M j)
      else (K, M))"
  by (auto simp: process_item_def mark_duplicates_closed set_similar_indices fun_eq_iff)

lemma process_duplicates_append:
  "process_duplicates i (xs @ ys) st =
     process_duplicates (i + int (length xs)) ys (process_duplicates i xs st)"
  by (induction xs arbitrary: i st) (simp_all add: add.assoc)

lemma process_duplicates_snoc:
  "process_duplicates i (xs @ [x]) st =
     process_item (i + int (length xs)) x (process_duplicates i xs st)"
  by (simp add: process_duplicates_append)

lemma mark_duplicates_append:
  "mark_duplicates i (xs @ ys) st = mark_duplicates i ys (mark_duplicates i xs st)"
  by (induction xs arbitrary: st) simp_all

section \<open>Rounding to float32\<close>

lemma float32_binade:
  assumes "2 powi e \<le> \<bar>x\<bar>" and "\<bar>x\<bar> < 2 powi (e + 1)" and "- 126 \<le> e"
  shows "float32 x = of_int (round_half_even (x / 2 powi (e - 23))) * 2 powi (e - 23)"
proof -
  have pos: "0 < \<bar>x\<bar>" using assms(1) by (smt (verit) zero_less_power_int)
  have p1: "(2::real) powr real_of_int e = 2 powi e"
    by (simp add: powr_real_of_int')
  have "(2::real) powr real_of_int (e + 1) = 2 powi (e + 1)"
    by (rule powr_real_of_int') simp_all
  then have p2: "(2::real) powr (real_of_int e + 1) = 2 powi (e + 1)"
    by simp
  have "\<lfloor>log 2 \<bar>x\<bar>\<rfloor> = e"
    using assms(1,2) pos by (simp add: floor_log_eq_powr_iff p1 p2)
  with assms(3) show ?thesis by (simp add: float32_def Let_def)
qed

lemma round_half_even_of_int: "round_half_even (of_int m) = m"
  by (simp add: round_half_even_def)

text \<open>A normal float32 number is its own rounding.\<close>

lemma float32_of_float32:
  assumes "2 ^ 23 \<le> \<bar>m\<bar>" and "\<bar>m\<bar> < 2 ^ 24" and "- 126 \<le> e"
  shows "float32 (of_int m * 2 powi (e - 23)) = of_int m * 2 powi (e - 23)"
proof -
  let ?u = "(2::real) powi (e - 23)"
  let ?x = "of_int m * ?u"
  have u: "0 < ?u" by simp
  have e0: "(2::real) powi e = 2 ^ 23 * ?u"
    by (simp add: power_int_diff)
  have e1: "(2::real) powi (e + 1) = 2 ^ 24 * ?u"
    by (simp add: power_int_diff power_int_add)
  have ax: "\<bar>?x\<bar> = of_int \<bar>m\<bar> * ?u" by (simp add: abs_mult)
  from assms(1) have "(2::real) ^ 23 \<le> of_int \<bar>m\<bar>"
    by (metis of_int_le_iff of_int_numeral of_int_power)
  then have lo: "2 powi e \<le> \<bar>?x\<bar>" unfolding ax e0 using u by simp
  from assms(2) have "of_int \<bar>m\<bar> < (2::real) ^ 24"
    by (metis of_int_less_iff of_int_numeral of_int_power)
  then have hi: "\<bar>?x\<bar> < 2 powi (e + 1)" unfolding ax e1 using u by simp
  have "?x / ?u = of_int m" by simp
  with float32_binade [OF lo hi assms(3)] show ?thesis
    by (simp only: round_half_even_of_int)
qed

lemma float32_threshold_099: "float32 (99/100) = 4152361/4194304"
  by (subst float32_binade [of "-1"]) (simp_all add: round_half_even_def power_int_minus)

lemma float32_half: "float32 (1/2) = 1/2"
  by (subst float32_binade [of "-1"]) (simp_all add: round_half_even_def power_int_minus)

lemma float32_rounds_down: "float32 (40265321/67108864) = 5033165/8388608"
  by (subst float32_binade [of "-1"]) (simp_all add: round_half_even_def power_int_minus)

section \<open>Partition of the indices\<close>

lemma process_item_partition:
  assumes "K \<inter> dom M = {}"
  shows "fst (process_item i items (K, M)) \<inter> dom (snd (process_item i items (K, M))) = {}
       \<and> fst (process_item i items (K, M)) \<union> dom (snd (process_item i items (K, M))) = K \<union> dom M"
  using assms by (auto simp: process_item_closed dom_def split: if_splits)

lemma process_duplicates_partition:
  assumes "fst st \<inter> dom (snd st) = {}"
  shows "fst (process_duplicates i results st) \<inter> dom (snd (process_duplicates i results st)) = {}
       \<and> fst (process_duplicates i results st) \<union> dom (snd (process_duplicates i results st))
           = fst st \<union> dom (snd st)"
  using assms
proof (induction results arbitrary: i st)
  case Nil
  then show ?case by simp
next
  case (Cons x xs)
  obtain K M where st: "st = (K, M)" by (cases st)
  from Cons.prems st have d: "K \<inter> dom M = {}" by simp
  note p = process_item_partition [OF d, of i x]
  from Cons.IH [of "process_item i x (K, M)" "i + 1"] p
  show ?case by (simp add: st)
qed

text \<open>
  Claim C3. For every search function, matrix, threshold and batch size, the returned set
  of kept indices and the key set of the returned mapping are disjoint, and their union
  is \<open>{0, ..., n - 1}\<close> with \<open>n\<close> the number of rows of the matrix. Nothing is
  assumed of the candidate indices: the property holds whether or not they are in range.
\<close>

theorem deduplicate_partition:
  "(case deduplicate nearest_neighbor_threshold embedding_matrix threshold batch_size of
      (kept, duplicate_of) \<Rightarrow>
        kept \<inter> dom duplicate_of = {} \<and>
        kept \<union> dom duplicate_of = {0 ..< int (length embedding_matrix)})"
  using process_duplicates_partition [where st = "({0 ..< int (length embedding_matrix)}, Map.empty)"
      and i = 0
      and results = "nearest_neighbor_threshold embedding_matrix embedding_matrix threshold batch_size"]
  by (simp add: deduplicate_def case_prod_beta)

section \<open>No self-mapping\<close>

lemma process_item_no_self:
  assumes "\<forall>j. M j \<noteq> Some j"
  shows "snd (process_item i items (K, M)) j \<noteq> Some j"
  using assms by (auto simp: process_item_closed)

lemma process_duplicates_no_self:
  assumes "\<forall>j. snd st j \<noteq> Some j"
  shows "snd (process_duplicates i results st) j \<noteq> Some j"
  using assms
proof (induction results arbitrary: i st)
  case Nil
  then show ?case by simp
next
  case (Cons x xs)
  obtain K M where st: "st = (K, M)" by (cases st)
  from Cons.prems st have "\<forall>j. snd (process_item i x (K, M)) j \<noteq> Some j"
    using process_item_no_self [of M i x K] by simp
  from Cons.IH [OF this] show ?case by (simp add: st)
qed

text \<open>
  Claim C8. For every input, the returned mapping has no entry whose key equals its
  value; and the list of similar indices built for \<open>i\<close>, from which every removal is
  decided, never contains \<open>i\<close> itself.
\<close>

theorem deduplicate_no_self_mapping:
  "snd (deduplicate nearest_neighbor_threshold embedding_matrix threshold batch_size) j \<noteq> Some j
   \<and> i \<notin> set (similar_indices i similar_items)"
  using process_duplicates_no_self [where st = "({0 ..< int (length embedding_matrix)}, Map.empty)"
      and j = j and i = 0
      and results = "nearest_neighbor_threshold embedding_matrix embedding_matrix threshold batch_size"]
  by (simp add: deduplicate_def set_similar_indices)

section \<open>The states of a pass\<close>

text \<open>
  The state of a pass after its first \<open>a\<close> iterations is the result of the outer loop
  on the first \<open>a\<close> neighbour lists, and the result of \<^verbatim>\<open>deduplicate\<close> is the state
  after all of them. One more neighbour list is one more run of the body of the outer
  loop, and one more similar index is one more run of the body of the inner loop.
\<close>

lemma deduplicate_is_pass:
  assumes "results = nearest_neighbor_threshold embedding_matrix embedding_matrix
                       threshold batch_size"
  shows "deduplicate nearest_neighbor_threshold embedding_matrix threshold batch_size =
         process_duplicates 0 (take (length results) results)
           ({0 ..< int (length embedding_matrix)}, Map.empty)"
  using assms by (simp add: deduplicate_def)

lemma process_duplicates_take_Suc:
  assumes "a < length results"
  shows "process_duplicates 0 (take (Suc a) results) st =
         process_item (int a) (results ! a) (process_duplicates 0 (take a results) st)"
  using assms by (simp add: take_Suc_conv_app_nth process_duplicates_snoc)

lemma mark_duplicates_take_Suc:
  assumes "k < length sims"
  shows "mark_duplicates i (take (Suc k) sims) st =
         mark_duplicate i (sims ! k) (mark_duplicates i (take k sims) st)"
  using assms by (simp add: take_Suc_conv_app_nth mark_duplicates_append)

lemma process_duplicates_disjoint:
  assumes "fst st \<inter> dom (snd st) = {}"
  shows "fst (process_duplicates i results st) \<inter> dom (snd (process_duplicates i results st)) = {}"
  using process_duplicates_partition [OF assms] by simp

lemma mark_duplicates_mono:
  assumes "K \<inter> dom M = {}"
  shows "fst (mark_duplicates i sims (K, M)) \<subseteq> K \<and>
         M \<subseteq>\<^sub>m snd (mark_duplicates i sims (K, M)) \<and>
         fst (mark_duplicates i sims (K, M)) \<inter> dom (snd (mark_duplicates i sims (K, M))) = {}"
  using assms by (auto simp: mark_duplicates_closed map_le_def dom_def split: if_splits)

lemma process_item_mono:
  assumes "K \<inter> dom M = {}"
  shows "fst (process_item i items (K, M)) \<subseteq> K \<and> M \<subseteq>\<^sub>m snd (process_item i items (K, M))"
  using mark_duplicates_mono [OF assms] by (simp add: process_item_def)

lemma process_duplicates_mono:
  assumes "fst st \<inter> dom (snd st) = {}"
  shows "fst (process_duplicates i results st) \<subseteq> fst st \<and>
         snd st \<subseteq>\<^sub>m snd (process_duplicates i results st)"
  using assms
proof (induction results arbitrary: i st)
  case Nil
  show ?case by simp
next
  case (Cons x xs)
  obtain K M where st: "st = (K, M)" by (cases st)
  from Cons.prems st have d: "K \<inter> dom M = {}" by simp
  let ?st1 = "process_item i x (K, M)"
  from process_item_partition [OF d, of i x] have d1: "fst ?st1 \<inter> dom (snd ?st1) = {}" by simp
  from Cons.IH [OF d1, of "i + 1"] process_item_mono [OF d, of i x]
  have "fst (process_duplicates (i + 1) xs ?st1) \<subseteq> K"
    and "M \<subseteq>\<^sub>m snd (process_duplicates (i + 1) xs ?st1)"
    by (blast intro: map_le_trans)+
  then show ?case by (simp add: st)
qed

lemma pass_disjoint:
  "fst (process_duplicates 0 results ({0 ..< int n}, Map.empty)) \<inter>
   dom (snd (process_duplicates 0 results ({0 ..< int n}, Map.empty))) = {}"
  by (rule process_duplicates_disjoint) simp

text \<open>
  Claim C9. The states of a pass are those reached after a prefix of the iterations:
  \<open>st_a\<close> after the first \<open>a\<close> neighbour lists, and, inside an iteration that starts
  in \<open>st_a\<close>, \<open>st_k\<close> after the first \<open>k\<close> similar indices (for every source index
  \<open>i\<close> and every list \<open>sims\<close>, so also for those of iteration \<open>a\<close>). From an
  earlier state to a later one the canonical set only shrinks, so an index once removed
  is never back, and every entry of the mapping is still there with the same value: no
  entry is overwritten or deleted.
\<close>

theorem canonical_set_shrinks_mapping_is_kept:
  assumes "a \<le> b" and "k \<le> l"
    and "st_a = process_duplicates 0 (take a results) ({0 ..< int n}, Map.empty)"
    and "st_b = process_duplicates 0 (take b results) ({0 ..< int n}, Map.empty)"
    and "st_k = mark_duplicates i (take k sims) st_a"
    and "st_l = mark_duplicates i (take l sims) st_a"
  shows "(fst st_b \<subseteq> fst st_a \<and> (\<forall>j v. snd st_a j = Some v \<longrightarrow> snd st_b j = Some v)) \<and>
         (fst st_l \<subseteq> fst st_k \<and> (\<forall>j v. snd st_k j = Some v \<longrightarrow> snd st_l j = Some v))"
proof
  have da: "fst st_a \<inter> dom (snd st_a) = {}"
    unfolding assms(3) by (rule pass_disjoint)
  have "take b results = take a results @ drop a (take b results)"
    using assms(1) by (metis append_take_drop_id min.absorb1 take_take)
  then have "st_b = process_duplicates (0 + int (length (take a results))) (drop a (take b results)) st_a"
    unfolding assms(3,4) by (metis process_duplicates_append)
  with process_duplicates_mono [OF da]
  have "fst st_b \<subseteq> fst st_a" and "snd st_a \<subseteq>\<^sub>m snd st_b" by simp_all
  then show "fst st_b \<subseteq> fst st_a \<and> (\<forall>j v. snd st_a j = Some v \<longrightarrow> snd st_b j = Some v)"
    by (auto simp: map_le_def dom_def)
next
  have da: "fst st_a \<inter> dom (snd st_a) = {}"
    unfolding assms(3) by (rule pass_disjoint)
  obtain K M where sk: "st_k = (K, M)" by (cases st_k)
  have dk: "K \<inter> dom M = {}"
    using mark_duplicates_mono [of "fst st_a" "snd st_a" i "take k sims"] da sk assms(5) by simp
  have "take l sims = take k sims @ drop k (take l sims)"
    using assms(2) by (metis append_take_drop_id min.absorb1 take_take)
  then have "st_l = mark_duplicates i (drop k (take l sims)) (K, M)"
    unfolding assms(6) using sk assms(5) by (metis mark_duplicates_append)
  with mark_duplicates_mono [OF dk]
  have "fst st_l \<subseteq> fst st_k" and "snd st_k \<subseteq>\<^sub>m snd st_l" by (simp_all add: sk)
  then show "fst st_l \<subseteq> fst st_k \<and> (\<forall>j v. snd st_k j = Some v \<longrightarrow> snd st_l j = Some v)"
    by (auto simp: map_le_def dom_def)
qed

text \<open>
  The entry \<open>1 \<mapsto> 0\<close> written in iteration 0 is unchanged after iteration 2, in which 2
  removes 0.
\<close>

theorem canonical_set_shrinks_mapping_is_kept_witness:
  "snd (process_duplicates 0 (take 1 [[(1, 1)], [], [(0, 1)]]) ({0 ..< int 3}, Map.empty)) 1 = Some 0 \<and>
   snd (process_duplicates 0 (take 3 [[(1, 1)], [], [(0, 1)]]) ({0 ..< int 3}, Map.empty)) 1 = Some 0 \<and>
   fst (process_duplicates 0 (take 3 [[(1, 1)], [], [(0, 1)]]) ({0 ..< int 3}, Map.empty))
     \<subseteq> fst (process_duplicates 0 (take 1 [[(1, 1)], [], [(0, 1)]]) ({0 ..< int 3}, Map.empty))"
proof -
  have m: "snd (process_duplicates 0 (take 1 [[(1, 1)], [], [(0, 1)]]) ({0 ..< int 3}, Map.empty)) 1 = Some 0"
    by (simp add: process_item_def similar_indices_def)
  have le: "(1::nat) \<le> 3" "(0::nat) \<le> 1" by simp_all
  from canonical_set_shrinks_mapping_is_kept
    [OF le refl refl refl refl, of "[[(1, 1)], [], [(0, 1)]]" 3 2 "[0]"] m
  show ?thesis by blast
qed

text \<open>
  Claim C5. Iteration \<open>a\<close> of a pass takes the state \<open>st\<close> reached after the first \<open>a\<close>
  neighbour lists to \<open>st'\<close> by the body of the outer loop, guard included. It writes
  an entry for \<open>j\<close> (the mapping changes at \<open>j\<close>) exactly when \<open>a\<close> is canonical in
  \<open>st\<close> and \<open>j\<close> is a similar index of \<open>a\<close> that is canonical in \<open>st\<close>. Whenever it
  writes, the entry is \<open>j \<mapsto> a\<close>, and there is a step \<open>k\<close> of the inner loop whose
  similar index is \<open>j\<close> and in whose state \<open>st_k\<close> both \<open>j\<close> and the source \<open>a\<close> are
  canonical: that step removes \<open>j\<close> and writes the entry, and \<open>a\<close> is canonical before
  the write, after it, and when the iteration ends. Nothing is assumed of the
  neighbour lists.
\<close>

theorem entry_written_only_by_canonical_source:
  assumes "a < length results"
    and "st = process_duplicates 0 (take a results) ({0 ..< int n}, Map.empty)"
    and "st' = process_item (int a) (results ! a) st"
    and "sims = similar_indices (int a) (results ! a)"
  shows "st' = process_duplicates 0 (take (Suc a) results) ({0 ..< int n}, Map.empty) \<and>
         (snd st' j \<noteq> snd st j \<longleftrightarrow> int a \<in> fst st \<and> j \<in> set sims \<and> j \<in> fst st) \<and>
         (snd st' j \<noteq> snd st j \<longrightarrow>
            snd st' j = Some (int a) \<and> int a \<in> fst st \<and> int a \<in> fst st' \<and>
            (\<exists>k < length sims. sims ! k = j \<and>
               (let st_k = mark_duplicates (int a) (take k sims) st
                in int a \<in> fst st_k \<and> j \<in> fst st_k \<and>
                   mark_duplicate (int a) j st_k = (fst st_k - {j}, (snd st_k)(j \<mapsto> int a)) \<and>
                   int a \<in> fst st_k - {j})))"
proof -
  obtain K M where st: "st = (K, M)" by (cases st)
  have "fst st \<inter> dom (snd st) = {}"
    unfolding assms(2) by (rule pass_disjoint)
  then have disj: "K \<inter> dom M = {}" by (simp add: st)
  have sims: "set sims = fst ` set (results ! a) - {int a}"
    unfolding assms(4) by (rule set_similar_indices)
  have step: "st' = process_duplicates 0 (take (Suc a) results) ({0 ..< int n}, Map.empty)"
    unfolding assms(3) assms(2) using assms(1) by (simp add: process_duplicates_take_Suc)
  have changed: "snd st' j \<noteq> snd st j \<longleftrightarrow> int a \<in> K \<and> j \<in> set sims \<and> j \<in> K"
  proof (cases "int a \<in> K \<and> j \<in> set sims \<and> j \<in> K")
    case True
    with disj have "M j = None" by auto
    with True show ?thesis
      unfolding assms(3) st sims by (simp add: process_item_closed)
  next
    case False
    then show ?thesis
      unfolding assms(3) st sims by (auto simp: process_item_closed)
  qed
  have written: "snd st' j = Some (int a) \<and> int a \<in> fst st \<and> int a \<in> fst st' \<and>
            (\<exists>k < length sims. sims ! k = j \<and>
               (let st_k = mark_duplicates (int a) (take k sims) st
                in int a \<in> fst st_k \<and> j \<in> fst st_k \<and>
                   mark_duplicate (int a) j st_k = (fst st_k - {j}, (snd st_k)(j \<mapsto> int a)) \<and>
                   int a \<in> fst st_k - {j}))"
    if w: "snd st' j \<noteq> snd st j"
  proof -
    from w changed have a: "int a \<in> K" and js: "j \<in> set sims" and jK: "j \<in> K" by simp_all
    from js sims have ja: "j \<noteq> int a" and jl: "j \<in> fst ` set (results ! a)" by auto
    have notin: "int a \<notin> set sims" unfolding sims by simp
    from a jl ja jK have v: "snd st' j = Some (int a)" and a': "int a \<in> fst st'"
      unfolding assms(3) st by (simp_all add: process_item_closed)
    from js obtain ys zs where dec: "sims = ys @ j # zs" and first: "j \<notin> set ys"
      by (meson split_list_first)
    from dec have k: "length ys < length sims" "sims ! length ys = j" "take (length ys) sims = ys"
      by simp_all
    from notin dec have ays: "int a \<notin> set ys" by simp
    have stk: "mark_duplicates (int a) (take (length ys) sims) st =
               (K - set ys, \<lambda>x. if x \<in> set ys \<and> x \<in> K then Some (int a) else M x)"
      unfolding k(3) st by (rule mark_duplicates_closed)
    have "let st_k = mark_duplicates (int a) (take (length ys) sims) st
          in int a \<in> fst st_k \<and> j \<in> fst st_k \<and>
             mark_duplicate (int a) j st_k = (fst st_k - {j}, (snd st_k)(j \<mapsto> int a)) \<and>
             int a \<in> fst st_k - {j}"
      unfolding stk using a jK first ays ja by simp
    with k(1,2) have "\<exists>k < length sims. sims ! k = j \<and>
               (let st_k = mark_duplicates (int a) (take k sims) st
                in int a \<in> fst st_k \<and> j \<in> fst st_k \<and>
                   mark_duplicate (int a) j st_k = (fst st_k - {j}, (snd st_k)(j \<mapsto> int a)) \<and>
                   int a \<in> fst st_k - {j})"
      by blast
    with v a a' show ?thesis by (simp add: st)
  qed
  from step changed written show ?thesis by (simp add: st)
qed

text \<open>
  Three documents; the list of 0 names 0, 2 and 1. Iteration 0 writes the entry
  \<open>1 \<mapsto> 0\<close>, and 0 is canonical before and after.
\<close>

theorem entry_written_only_by_canonical_source_witness:
  "snd (process_duplicates 0 (take 0 [[(0, 1), (2, 1), (1, 1)], [(1, 1), (2, 1)], [(2, 1), (0, 1), (1, 1)]])
          ({0 ..< int 3}, Map.empty)) 1 = None \<and>
   snd (process_duplicates 0 (take 1 [[(0, 1), (2, 1), (1, 1)], [(1, 1), (2, 1)], [(2, 1), (0, 1), (1, 1)]])
          ({0 ..< int 3}, Map.empty)) 1 = Some 0 \<and>
   0 \<in> fst (process_duplicates 0 (take 0 [[(0, 1), (2, 1), (1, 1)], [(1, 1), (2, 1)], [(2, 1), (0, 1), (1, 1)]])
          ({0 ..< int 3}, Map.empty)) \<and>
   0 \<in> fst (process_duplicates 0 (take 1 [[(0, 1), (2, 1), (1, 1)], [(1, 1), (2, 1)], [(2, 1), (0, 1), (1, 1)]])
          ({0 ..< int 3}, Map.empty))"
proof -
  let ?R = "[[(0, 1), (2, 1), (1, 1)], [(1, 1), (2, 1)], [(2, 1), (0, 1), (1, 1)]] :: item list list"
  have l0: "(0::nat) < length ?R" by simp
  from entry_written_only_by_canonical_source [OF l0 refl refl refl, of 3 1]
  show ?thesis
    by (simp add: process_item_def similar_indices_def)
qed

section \<open>Representatives\<close>

lemma symmetric_neighbors_butlast:
  assumes "symmetric_neighbors (xs @ [x])"
  shows "symmetric_neighbors xs"
  unfolding symmetric_neighbors_def
proof (intro ballI impI)
  fix a b
  assume a: "a \<in> {0 ..< length xs}" and b: "b \<in> {0 ..< length xs}"
    and ab: "int b \<in> fst ` set (xs ! a)"
  from a b have "a \<in> {0 ..< length (xs @ [x])}" "b \<in> {0 ..< length (xs @ [x])}" by simp_all
  moreover from a ab have "int b \<in> fst ` set ((xs @ [x]) ! a)" by (simp add: nth_append)
  ultimately have "int a \<in> fst ` set ((xs @ [x]) ! b)"
    using assms unfolding symmetric_neighbors_def by blast
  with b show "int a \<in> fst ` set (xs ! b)" by (simp add: nth_append)
qed



lemma sources_kept_pass:
  assumes "symmetric_neighbors results"
  shows "sources_kept results (process_duplicates 0 results (K0, Map.empty))"
  using assms
proof (induction results rule: rev_induct)
  case Nil
  show ?case by (simp add: sources_kept_def)
next
  case (snoc x xs)
  obtain K M where st: "process_duplicates 0 xs (K0, Map.empty) = (K, M)"
    by (cases "process_duplicates 0 xs (K0, Map.empty)")
  from snoc.IH [OF symmetric_neighbors_butlast [OF snoc.prems]] st
  have inv: "sources_kept xs (K, M)" by simp
  let ?a = "int (length xs)"
  show ?case
  proof (cases "?a \<in> K")
    case False
    have "sources_kept (xs @ [x]) (K, M)"
      unfolding sources_kept_def
    proof (intro allI impI)
      fix j i assume "snd (K, M) j = Some i"
      with inv have "0 \<le> i \<and> nat i < length xs \<and> i \<in> K \<and>
          (\<forall>b \<in> fst ` set (xs ! nat i). b \<noteq> i \<longrightarrow> b \<notin> K)"
        unfolding sources_kept_def by simp
      then show "0 \<le> i \<and> nat i < length (xs @ [x]) \<and> i \<in> fst (K, M) \<and>
          (\<forall>b \<in> fst ` set ((xs @ [x]) ! nat i). b \<noteq> i \<longrightarrow> b \<notin> fst (K, M))"
        by (simp add: nth_append)
    qed
    with False show ?thesis
      by (simp add: process_duplicates_snoc st process_item_closed)
  next
    case True
    let ?K' = "K - (fst ` set x - {?a})"
    let ?M' = "\<lambda>j. if j \<in> fst ` set x \<and> j \<noteq> ?a \<and> j \<in> K then Some ?a else M j"
    have "sources_kept (xs @ [x]) (?K', ?M')"
      unfolding sources_kept_def
    proof (intro allI impI)
      fix j i assume e: "snd (?K', ?M') j = Some i"
      show "0 \<le> i \<and> nat i < length (xs @ [x]) \<and> i \<in> fst (?K', ?M') \<and>
          (\<forall>b \<in> fst ` set ((xs @ [x]) ! nat i). b \<noteq> i \<longrightarrow> b \<notin> fst (?K', ?M'))"
      proof (cases "j \<in> fst ` set x \<and> j \<noteq> ?a \<and> j \<in> K")
        case True
        with e have "i = ?a" by simp
        with \<open>?a \<in> K\<close> show ?thesis by auto
      next
        case False
        with e have "M j = Some i" by simp
        with inv have i: "0 \<le> i" "nat i < length xs" "i \<in> K"
          and nb: "\<forall>b \<in> fst ` set (xs ! nat i). b \<noteq> i \<longrightarrow> b \<notin> K"
          unfolding sources_kept_def by auto
        have "i \<notin> fst ` set x"
        proof
          assume "i \<in> fst ` set x"
          with i have "int (nat i) \<in> fst ` set ((xs @ [x]) ! length xs)" by simp
          moreover have "length xs \<in> {0 ..< length (xs @ [x])}"
            and "nat i \<in> {0 ..< length (xs @ [x])}" using i by simp_all
          ultimately have "?a \<in> fst ` set ((xs @ [x]) ! nat i)"
            using snoc.prems unfolding symmetric_neighbors_def by blast
          with i have "?a \<in> fst ` set (xs ! nat i)" by (simp add: nth_append)
          moreover from i have "?a \<noteq> i" by linarith
          ultimately have "?a \<notin> K" using nb by blast
          with \<open>?a \<in> K\<close> show False by contradiction
        qed
        with i nb show ?thesis by (auto simp: nth_append)
      qed
    qed
    with True show ?thesis
      by (simp add: process_duplicates_snoc st process_item_closed)
  qed
qed

text \<open>
  Claim C1, amended. When the delivered neighbour lists are symmetric, every value of the
  returned mapping is a member of the returned kept set.
\<close>

theorem representative_kept_under_symmetry:
  assumes "symmetric_neighbors
             (nearest_neighbor_threshold embedding_matrix embedding_matrix threshold batch_size)"
    and "snd (deduplicate nearest_neighbor_threshold embedding_matrix threshold batch_size) j
           = Some i"
  shows "i \<in> fst (deduplicate nearest_neighbor_threshold embedding_matrix threshold batch_size)"
  using sources_kept_pass [OF assms(1), of "{0 ..< int (length embedding_matrix)}"] assms(2)
  by (simp add: deduplicate_def sources_kept_def)

text \<open>
  A symmetric run: the lists of 0 and 1 name each other, 1 is mapped to 0 and 0 is kept.
\<close>

theorem representative_kept_under_symmetry_witness:
  "symmetric_neighbors [[(1, 1)], [(0, 1)], []] \<and>
   snd (deduplicate (\<lambda>_ _ _ _. [[(1, 1)], [(0, 1)], []]) [(), (), ()] (99/100) 1024) 1 = Some 0 \<and>
   0 \<in> fst (deduplicate (\<lambda>_ _ _ _. [[(1, 1)], [(0, 1)], []]) [(), (), ()] (99/100) 1024)"
proof -
  have sym: "symmetric_neighbors [[(1, 1)], [(0, 1)], []]"
    by (simp add: symmetric_neighbors_def atLeast0_lessThan_Suc eval_nat_numeral)
  have m: "snd (deduplicate (\<lambda>_ _ _ _. [[(1, 1)], [(0, 1)], []]) [(), (), ()] (99/100) 1024) 1 = Some 0"
    by (simp add: deduplicate_def process_item_def similar_indices_def)
  from representative_kept_under_symmetry
    [of "\<lambda>_ _ _ _. [[(1, 1)], [(0, 1)], []]" "[(), (), ()]" "99/100" 1024 1 0, OF sym m] sym m
  show ?thesis by simp
qed

text \<open>
  Without symmetry the property fails. Three documents; the list of 0 names 1, the list
  of 2 names 0, the list of 1 is empty. Iteration 0 maps 1 to 0, iteration 1 is
  skipped, iteration 2 removes 0: the entry \<open>1 \<mapsto> 0\<close> stays and 0 is not kept.
\<close>

theorem representative_not_kept_counterexample:
  "snd (deduplicate (\<lambda>_ _ _ _. [[(1, 1)], [], [(0, 1)]]) [(), (), ()] (99/100) 1024) 1 = Some 0 \<and>
   0 \<notin> fst (deduplicate (\<lambda>_ _ _ _. [[(1, 1)], [], [(0, 1)]]) [(), (), ()] (99/100) 1024)"
  by (simp add: deduplicate_def process_item_def similar_indices_def)

section \<open>What a removal comes from\<close>

lemma mapping_from_neighbor_list:
  assumes "snd (process_duplicates 0 results (K0, Map.empty)) j = Some i"
  shows "0 \<le> i \<and> nat i < length results \<and> j \<noteq> i \<and> j \<in> fst ` set (results ! nat i)"
  using assms
proof (induction results arbitrary: j i rule: rev_induct)
  case Nil
  then show ?case by simp
next
  case (snoc x xs)
  obtain K M where st: "process_duplicates 0 xs (K0, Map.empty) = (K, M)"
    by (cases "process_duplicates 0 xs (K0, Map.empty)")
  let ?a = "int (length xs)"
  have old: "0 \<le> i \<and> nat i < length (xs @ [x]) \<and> j \<noteq> i \<and> j \<in> fst ` set ((xs @ [x]) ! nat i)"
    if "M j = Some i"
  proof -
    from snoc.IH [of j i] that st
    have "0 \<le> i \<and> nat i < length xs \<and> j \<noteq> i \<and> j \<in> fst ` set (xs ! nat i)" by simp
    then show ?thesis by (simp add: nth_append)
  qed
  show ?case
  proof (cases "?a \<in> K \<and> j \<in> fst ` set x \<and> j \<noteq> ?a \<and> j \<in> K")
    case True
    with snoc.prems have "i = ?a"
      by (simp add: process_duplicates_snoc st process_item_closed)
    with True show ?thesis by simp
  next
    case False
    with snoc.prems have "M j = Some i"
      by (auto simp: process_duplicates_snoc st process_item_closed split: if_splits)
    then show ?thesis by (rule old)
  qed
qed

text \<open>
  Claim C2, amended. The loop of \<^verbatim>\<open>deduplicate\<close> compares no score: the threshold is
  only handed to the search. An index \<open>j\<close> is mapped to \<open>i\<close> only if \<open>i\<close> is a visited
  index, \<open>j \<noteq> i\<close>, and the list delivered for \<open>i\<close> has an entry for \<open>j\<close>; the score of
  that entry is at or above every bound that all delivered scores meet. For a search
  that compares in single precision that bound is the threshold rounded to float32,
  not the threshold.
\<close>

theorem removal_only_for_delivered_entry:
  assumes "results = nearest_neighbor_threshold embedding_matrix embedding_matrix
                       threshold batch_size"
    and "\<forall>similar_items \<in> set results. \<forall>item \<in> set similar_items. snd item \<ge> bound"
    and "snd (deduplicate nearest_neighbor_threshold embedding_matrix threshold batch_size) j
           = Some i"
  shows "0 \<le> i \<and> nat i < length results \<and> j \<noteq> i \<and>
         (\<exists>score \<ge> bound. (j, score) \<in> set (results ! nat i))"
proof -
  from assms(1,3)
  have m: "0 \<le> i \<and> nat i < length results \<and> j \<noteq> i \<and> j \<in> fst ` set (results ! nat i)"
    using mapping_from_neighbor_list [of results "{0 ..< int (length embedding_matrix)}" j i]
    by (simp add: deduplicate_def)
  then obtain score where s: "(j, score) \<in> set (results ! nat i)" by auto
  from m have "results ! nat i \<in> set results" by simp
  with s assms(2) have "score \<ge> bound" by fastforce
  with m s show ?thesis by blast
qed

text \<open>
  Two documents with the cosine 5033165/8388608, the float32 next to 0.6, and the
  threshold 40265321/67108864, which rounds to that score: each list holds the document
  itself and the other one, all scores are at or above the rounded threshold, and 1 is
  mapped to 0.
\<close>

theorem removal_only_for_delivered_entry_witness:
  "snd (deduplicate
          (\<lambda>_ _ _ _. [[(0, 1), (1, 5033165/8388608)], [(1, 1), (0, 5033165/8388608)]])
          [(), ()] (40265321/67108864) 1024) 1 = Some 0 \<and>
   (\<exists>score \<ge> float32 (40265321/67108864).
      (1, score) \<in> set (([[(0, 1), (1, 5033165/8388608)], [(1, 1), (0, 5033165/8388608)]]
                         :: item list list) ! nat 0))"
proof -
  let ?R = "[[(0, 1), (1, 5033165/8388608)], [(1, 1), (0, 5033165/8388608)]] :: item list list"
  have m: "snd (deduplicate (\<lambda>_ _ _ _. ?R) [(), ()] (40265321/67108864) 1024) 1 = Some 0"
    by (simp add: deduplicate_def process_item_def similar_indices_def)
  have c: "\<forall>similar_items \<in> set ?R. \<forall>item \<in> set similar_items.
             snd item \<ge> float32 (40265321/67108864)"
    by (simp add: float32_rounds_down)
  from removal_only_for_delivered_entry
    [of ?R "\<lambda>_ _ _ _. ?R" "[(), ()]" "40265321/67108864" 1024 "float32 (40265321/67108864)" 1 0,
     OF refl c m] m
  show ?thesis by simp
qed

text \<open>
  The same run read against the claim as stated: the score of the entry that removes 1
  is below the threshold.
\<close>

theorem removal_below_threshold_counterexample:
  "float32 (40265321/67108864) = 5033165/8388608 \<and>
   (5033165/8388608 :: real) < 40265321/67108864 \<and>
   snd (deduplicate
          (\<lambda>_ _ _ _. [[(0, 1), (1, 5033165/8388608)], [(1, 1), (0, 5033165/8388608)]])
          [(), ()] (40265321/67108864) 1024) 1 = Some 0 \<and>
   1 \<notin> fst (deduplicate
          (\<lambda>_ _ _ _. [[(0, 1), (1, 5033165/8388608)], [(1, 1), (0, 5033165/8388608)]])
          [(), ()] (40265321/67108864) 1024)"
  by (simp add: deduplicate_def process_item_def similar_indices_def float32_rounds_down)

section \<open>A cluster of three\<close>

text \<open>
  A frame rule: indices of \<open>S\<close> that no list of a processed canonical index names
  keep their membership and their entry.
\<close>

lemma process_duplicates_frame:
  assumes "\<forall>k < length xs. i + int k \<in> K \<longrightarrow> fst ` set (xs ! k) \<inter> S \<subseteq> {i + int k}"
    and "s \<in> S"
  shows "(s \<in> fst (process_duplicates i xs (K, M)) \<longleftrightarrow> s \<in> K) \<and>
         snd (process_duplicates i xs (K, M)) s = M s"
  using assms
proof (induction xs arbitrary: i K M)
  case Nil
  show ?case by simp
next
  case (Cons x xs)
  obtain K1 M1 where st1: "process_item i x (K, M) = (K1, M1)"
    by (cases "process_item i x (K, M)")
  from Cons.prems(1) have hd: "i \<in> K \<longrightarrow> fst ` set x \<inter> S \<subseteq> {i}" by fastforce
  from st1 hd Cons.prems(2) have same: "(s \<in> K1 \<longleftrightarrow> s \<in> K) \<and> M1 s = M s"
    by (auto simp: process_item_closed split: if_splits)
  from st1 have sub: "K1 \<subseteq> K"
    by (auto simp: process_item_closed split: if_splits)
  have "\<forall>k < length xs. (i + 1) + int k \<in> K1 \<longrightarrow> fst ` set (xs ! k) \<inter> S \<subseteq> {(i + 1) + int k}"
  proof (intro allI impI)
    fix k assume k: "k < length xs" and "(i + 1) + int k \<in> K1"
    with sub have "i + int (Suc k) \<in> K" by (auto simp: algebra_simps)
    moreover from k have "Suc k < length (x # xs)" by simp
    ultimately have "fst ` set ((x # xs) ! Suc k) \<inter> S \<subseteq> {i + int (Suc k)}"
      using Cons.prems(1) by blast
    then show "fst ` set (xs ! k) \<inter> S \<subseteq> {(i + 1) + int k}" by (simp add: algebra_simps)
  qed
  from Cons.IH [OF this Cons.prems(2), of M1] same show ?case by (simp add: st1)
qed

text \<open>
  Claim C4. There are at least eight documents, the list delivered for 2 names 5 and 7,
  and no list of a document other than 2, 5 and 7 names any of the three. Then 2 is
  kept, 5 and 7 are not, and both are mapped to 2. The lists of 5 and 7 may hold
  anything: the symmetry that the claim also assumes is not needed.
\<close>

theorem lowest_index_of_cluster_wins:
  assumes "results = nearest_neighbor_threshold embedding_matrix embedding_matrix
                       threshold batch_size"
    and "8 \<le> length embedding_matrix" and "2 < length results"
    and "5 \<in> fst ` set (results ! 2)" and "7 \<in> fst ` set (results ! 2)"
    and "\<forall>a < length results. a \<notin> {2, 5, 7} \<longrightarrow> fst ` set (results ! a) \<inter> {2, 5, 7} = {}"
  shows "(case deduplicate nearest_neighbor_threshold embedding_matrix threshold batch_size of
            (kept, duplicate_of) \<Rightarrow>
              2 \<in> kept \<and> 5 \<notin> kept \<and> 7 \<notin> kept \<and>
              duplicate_of 5 = Some 2 \<and> duplicate_of 7 = Some 2)"
proof -
  let ?S = "{2, 5, 7} :: int set"
  let ?K0 = "{0 ..< int (length embedding_matrix)}"
  have split: "results = take 2 results @ (results ! 2) # drop 3 results"
  proof -
    have "Suc 2 = 3" by simp
    with id_take_nth_drop [OF assms(3)] show ?thesis by metis
  qed
  obtain K1 M1 where st1: "process_duplicates 0 (take 2 results) (?K0, Map.empty) = (K1, M1)"
    by (cases "process_duplicates 0 (take 2 results) (?K0, Map.empty)")
  have pre: "\<forall>k < length (take 2 results). 0 + int k \<in> ?K0 \<longrightarrow>
               fst ` set (take 2 results ! k) \<inter> ?S \<subseteq> {0 + int k}"
  proof (intro allI impI)
    fix k assume "k < length (take 2 results)"
    with assms(3) have k: "k < 2" "k < length results" by simp_all
    then have "k \<notin> {2, 5, 7}" by simp
    with assms(6) k have "fst ` set (results ! k) \<inter> ?S = {}" by blast
    with k show "fst ` set (take 2 results ! k) \<inter> ?S \<subseteq> {0 + int k}" by simp
  qed
  have in1: "s \<in> K1 \<and> M1 s = None" if "s \<in> ?S" for s
  proof -
    from that assms(2) have "s \<in> ?K0" by auto
    with process_duplicates_frame [OF pre that, of Map.empty] st1 show ?thesis by simp
  qed
  obtain K2 M2 where st2: "process_item 2 (results ! 2) (K1, M1) = (K2, M2)"
    by (cases "process_item 2 (results ! 2) (K1, M1)")
  from in1 [of 2] st2
  have K2: "K2 = K1 - (fst ` set (results ! 2) - {2})"
    and M2: "M2 = (\<lambda>j. if j \<in> fst ` set (results ! 2) \<and> j \<noteq> 2 \<and> j \<in> K1 then Some 2 else M1 j)"
    by (simp_all add: process_item_closed)
  from in1 [of 2] in1 [of 5] in1 [of 7] assms(4,5)
  have s2: "2 \<in> K2" "5 \<notin> K2" "7 \<notin> K2" "M2 5 = Some 2" "M2 7 = Some 2"
    unfolding K2 M2 by simp_all
  have post: "\<forall>k < length (drop 3 results). 3 + int k \<in> K2 \<longrightarrow>
               fst ` set (drop 3 results ! k) \<inter> ?S \<subseteq> {3 + int k}"
  proof (intro allI impI)
    fix k assume k: "k < length (drop 3 results)" and c: "3 + int k \<in> K2"
    then have lt: "3 + k < length results" by simp
    from c s2 have "3 + int k \<noteq> 5" "3 + int k \<noteq> 7" by auto
    then have "3 + k \<notin> {2, 5, 7}" by auto
    with assms(6) lt have "fst ` set (results ! (3 + k)) \<inter> ?S = {}" by blast
    with lt show "fst ` set (drop 3 results ! k) \<inter> ?S \<subseteq> {3 + int k}" by simp
  qed
  have len2: "length (take 2 results) = 2" using assms(3) by simp
  have run: "process_duplicates 0 results (?K0, Map.empty) = process_duplicates 3 (drop 3 results) (K2, M2)"
    by (subst split) (use assms(3) in \<open>simp add: process_duplicates_append st1 st2\<close>)
  have fin: "(s \<in> fst (process_duplicates 3 (drop 3 results) (K2, M2)) \<longleftrightarrow> s \<in> K2) \<and>
        snd (process_duplicates 3 (drop 3 results) (K2, M2)) s = M2 s" if "s \<in> ?S" for s
    using process_duplicates_frame [OF post that] .
  from fin [of 2] fin [of 5] fin [of 7] s2 show ?thesis
    by (simp add: deduplicate_def assms(1) [symmetric] run case_prod_beta)
qed

text \<open>
  Eight documents: 2, 5 and 7 name each other, 3 and 4 name each other, the rest name
  nobody.
\<close>

theorem lowest_index_of_cluster_wins_witness:
  "(case deduplicate
           (\<lambda>_ _ _ _. [[], [], [(2, 1), (5, 1), (7, 1)], [(4, 1)], [(3, 1)],
                        [(5, 1), (2, 1), (7, 1)], [], [(7, 1), (2, 1), (5, 1)]])
           [(), (), (), (), (), (), (), ()] (99/100) 1024 of
      (kept, duplicate_of) \<Rightarrow>
        2 \<in> kept \<and> 5 \<notin> kept \<and> 7 \<notin> kept \<and> duplicate_of 5 = Some 2 \<and> duplicate_of 7 = Some 2)"
proof -
  let ?R = "[[], [], [(2, 1), (5, 1), (7, 1)], [(4, 1)], [(3, 1)],
             [(5, 1), (2, 1), (7, 1)], [], [(7, 1), (2, 1), (5, 1)]] :: item list list"
  have other: "\<forall>a < length ?R. a \<notin> {2, 5, 7} \<longrightarrow> fst ` set (?R ! a) \<inter> {2, 5, 7} = {}"
    by (simp add: All_less_Suc eval_nat_numeral)
  show ?thesis
    by (rule lowest_index_of_cluster_wins [of ?R "\<lambda>_ _ _ _. ?R", OF refl _ _ _ _ other]) simp_all
qed

section \<open>The cross-dataset loop\<close>

lemma first_filtered_find:
  "(case map fst (filter P items) of [] \<Rightarrow> a | y # _ \<Rightarrow> b y) =
   (case find P items of None \<Rightarrow> a | Some it \<Rightarrow> b (fst it))"
  by (induction items) simp_all

lemma mark_overlap_closed:
  "mark_overlap threshold i items (D, M) =
     (case find (\<lambda>item. float32 threshold \<le> snd item) items of
        None \<Rightarrow> (D, M)
      | Some it \<Rightarrow> (D @ [i], M(i \<mapsto> fst it)))"
  by (simp add: first_filtered_find)

declare mark_overlap.simps [simp del]







text \<open>
  Claim C10. The candidate chosen for a query does not depend on the query's index:
  the body of the loop records the same reference whatever the index is. And there is
  an input, the same collection as reference and as query with each query's own entry
  in its list at a score above the threshold, for which a query index is in the
  returned list and mapped to itself.
\<close>

theorem cross_dataset_no_self_pair_exclusion:
  "snd (mark_overlap threshold i similar_items ([], Map.empty)) i =
   snd (mark_overlap threshold i' similar_items ([], Map.empty)) i' \<and>
   (\<exists>(nearest_neighbor_threshold :: unit search) embedding_matrix threshold batch_size i.
      case deduplicate_across_datasets nearest_neighbor_threshold embedding_matrix
             embedding_matrix threshold batch_size of
        (overlapping, reference_of) \<Rightarrow> i \<in> set overlapping \<and> reference_of i = Some i)"
proof
  show "snd (mark_overlap threshold i similar_items ([], Map.empty)) i =
        snd (mark_overlap threshold i' similar_items ([], Map.empty)) i'"
    by (simp add: mark_overlap_closed split: option.splits)
  have "case deduplicate_across_datasets (\<lambda>_ _ _ _. [[(0, 1)], [(1, 1)]]) [(), ()] [(), ()]
               (99/100) 1024 of
          (overlapping, reference_of) \<Rightarrow> 1 \<in> set overlapping \<and> reference_of 1 = Some 1"
    by (simp add: deduplicate_across_datasets_def mark_overlap.simps float32_threshold_099)
  then show "\<exists>(nearest_neighbor_threshold :: unit search) embedding_matrix threshold batch_size i.
      case deduplicate_across_datasets nearest_neighbor_threshold embedding_matrix
             embedding_matrix threshold batch_size of
        (overlapping, reference_of) \<Rightarrow> i \<in> set overlapping \<and> reference_of i = Some i"
    apply -
    apply (rule exI [of _ "\<lambda>_ _ _ _. [[(0, 1)], [(1, 1)]]"])
    apply (rule exI [of _ "[(), ()]"])
    apply (rule exI [of _ "99/100"])
    apply (rule exI [of _ "1024"])
    apply (rule exI [of _ "1"])
    apply assumption
    done
qed

end
